theory Spec2Isabelle
  imports Main "HOL-Library.Word"
begin

section \<open>JavaScript strings\<close>

text \<open>
  A JavaScript string is a sequence of UTF-16 code units; \<open>length\<close>, \<open>substring\<close>,
  \<open>repeat\<close> and a regular expression without the \<open>u\<close> flag all work on code units.
  ASCII literals of the source are written \<open>js ''...''\<close>.
\<close>

type_synonym jschar = "16 word"
type_synonym jsstring = "jschar list"

definition js :: "string \<Rightarrow> jsstring" where
  "js s = map (\<lambda>c. of_nat (of_char c)) s"

text \<open>
  The code units that \<open>String.prototype.trim\<close> strips: ECMAScript WhiteSpace and
  LineTerminator (tab, LF, VT, FF, CR, space, NBSP, the Unicode space separators,
  LS, PS and the byte order mark).
\<close>

definition isWhiteSpace :: "jschar \<Rightarrow> bool" where
  "isWhiteSpace c \<longleftrightarrow>
     (0x09 \<le> c \<and> c \<le> 0x0D) \<or> c = 0x20 \<or> c = 0xA0 \<or> c = 0x1680 \<or>
     (0x2000 \<le> c \<and> c \<le> 0x200A) \<or> c = 0x2028 \<or> c = 0x2029 \<or> c = 0x202F \<or>
     c = 0x205F \<or> c = 0x3000 \<or> c = 0xFEFF"

definition trimStart :: "jsstring \<Rightarrow> jsstring" where
  "trimStart s = dropWhile isWhiteSpace s"

definition trimEnd :: "jsstring \<Rightarrow> jsstring" where
  "trimEnd s = rev (dropWhile isWhiteSpace (rev s))"

definition trim :: "jsstring \<Rightarrow> jsstring" where
  "trim s = trimEnd (trimStart s)"

section \<open>saveToFile: the file name derived from the query\<close>

text \<open>
  \<^verbatim>\<open>query.substring(0, 50).replace(/[^a-z0-9]/gi, '_').toLowerCase()\<close>

  The class \<open>[a-z0-9]\<close> under the \<open>i\<close> flag and no \<open>u\<close> flag: a code unit is compared
  after canonicalisation by \<open>toUpperCase\<close>, which never maps a code unit of 128 or more
  to one below 128, so exactly the ASCII letters of both cases and the ASCII digits are
  in the class.
\<close>

definition isDigit :: "jschar \<Rightarrow> bool" where
  "isDigit c \<longleftrightarrow> 0x30 \<le> c \<and> c \<le> 0x39"

definition isUpper :: "jschar \<Rightarrow> bool" where
  "isUpper c \<longleftrightarrow> 0x41 \<le> c \<and> c \<le> 0x5A"

definition isLower :: "jschar \<Rightarrow> bool" where
  "isLower c \<longleftrightarrow> 0x61 \<le> c \<and> c \<le> 0x7A"

definition matches_alnum_i :: "jschar \<Rightarrow> bool" where
  "matches_alnum_i c \<longleftrightarrow> isLower c \<or> isUpper c \<or> isDigit c"

definition substring0 :: "nat \<Rightarrow> jsstring \<Rightarrow> jsstring" where
  "substring0 n s = take n s"

definition replace_non_alnum :: "jsstring \<Rightarrow> jsstring" where
  "replace_non_alnum s = map (\<lambda>c. if matches_alnum_i c then c else 0x5F) s"

text \<open>
  \<open>toLowerCase\<close> on the ASCII range: \<open>A\<close>..\<open>Z\<close> move to \<open>a\<close>..\<open>z\<close>. Code units
  outside ASCII are left as they are here; \<open>sanitizedQuery\<close> applies the function to
  ASCII code units only (lemma \<open>replace_non_alnum_ascii\<close>).
\<close>

definition toLowerCase :: "jsstring \<Rightarrow> jsstring" where
  "toLowerCase s = map (\<lambda>c. if isUpper c then c + 0x20 else c) s"

definition sanitizedQuery :: "jsstring \<Rightarrow> jsstring" where
  "sanitizedQuery query = toLowerCase (replace_non_alnum (substring0 50 query))"

text \<open>
  \<^verbatim>\<open>new Date().toISOString().replace(/[:.]/g, '-')\<close> and the template literal of the
  file name; the clock's ISO string is an argument.
\<close>

definition timestamp_of :: "jsstring \<Rightarrow> jsstring" where
  "timestamp_of isoString = map (\<lambda>c. if c = 0x3A \<or> c = 0x2E then 0x2D else c) isoString"

definition filename :: "jsstring \<Rightarrow> jsstring \<Rightarrow> jsstring" where
  "filename query isoString =
     js ''chatgpt_response_'' @ sanitizedQuery query @ js ''_'' @ timestamp_of isoString @ js ''.json''"

text \<open>The alphabet \<open>[a-z0-9_]\<close> of a sanitised token.\<close>

definition safe_char :: "jschar \<Rightarrow> bool" where
  "safe_char c \<longleftrightarrow> isLower c \<or> isDigit c \<or> c = 0x5F"

section \<open>The page's document\<close>

text \<open>
  A DOM subtree: text nodes, comments and elements. An element carries its lower-case
  tag name (what \<open>el.tagName.toLowerCase()\<close> returns in an HTML document), its
  attributes and its child nodes in document order.
\<close>

datatype node =
    Text jsstring
  | Comment jsstring
  | Element string "(string \<times> jsstring) list" "node list"

text \<open>
  \<open>textContent\<close> of an element: the data of its descendant text nodes, in document
  order; comments contribute nothing.
\<close>

fun textContent :: "node \<Rightarrow> jsstring" where
  "textContent (Text d) = d"
| "textContent (Comment d) = []"
| "textContent (Element tag attrs cs) = concat (map textContent cs)"

fun isElement :: "node \<Rightarrow> bool" where
  "isElement (Element tag attrs cs) = True"
| "isElement _ = False"

fun tagName :: "node \<Rightarrow> string" where
  "tagName (Element tag attrs cs) = tag"
| "tagName _ = []"

fun getAttribute :: "node \<Rightarrow> string \<Rightarrow> jsstring option" where
  "getAttribute (Element tag attrs cs) name = map_of attrs name"
| "getAttribute _ name = None"

text \<open>
  The descendant elements of a node in document order (pre-order), each paired with its
  \<open>parentElement\<close>. A descendant always has one; \<open>None\<close> stands for \<open>null\<close>.
\<close>

fun descendants :: "node \<Rightarrow> (node option \<times> node) list" where
  "descendants (Element tag attrs cs) =
     concat (map (\<lambda>c. (if isElement c then [(Some (Element tag attrs cs), c)] else []) @
                       descendants c) cs)"
| "descendants _ = []"

text \<open>
  The three shapes of selector the source uses: \<open>tag\<close>, \<open>tag[attr="value"]\<close> and
  \<open>tag[attr^="value"]\<close>. A selector list matches when one of its members does.
\<close>

datatype selector =
    TypeSel string
  | AttrEq string string jsstring
  | AttrPrefix string string jsstring

fun matches :: "selector \<Rightarrow> node \<Rightarrow> bool" where
  "matches (TypeSel t) el = (isElement el \<and> tagName el = t)"
| "matches (AttrEq t a v) el = (isElement el \<and> tagName el = t \<and> getAttribute el a = Some v)"
| "matches (AttrPrefix t a v) el =
     (isElement el \<and> tagName el = t \<and>
      (case getAttribute el a of
         None \<Rightarrow> False
       | Some w \<Rightarrow> v \<noteq> [] \<and> take (length v) w = v))"

definition querySelectorAll :: "selector list \<Rightarrow> node \<Rightarrow> (node option \<times> node) list" where
  "querySelectorAll sels root =
     filter (\<lambda>pe. list_ex (\<lambda>sel. matches sel (snd pe)) sels) (descendants root)"

definition querySelector :: "selector list \<Rightarrow> node \<Rightarrow> (node option \<times> node) option" where
  "querySelector sels root =
     (case querySelectorAll sels root of [] \<Rightarrow> None | pe # _ \<Rightarrow> Some pe)"

text \<open>
  The \<open>href\<close> property of an anchor: the empty string without an \<open>href\<close> attribute,
  otherwise the attribute resolved against the document's base URL. The browser's
  resolution is the argument \<open>resolve\<close>.
\<close>

definition href :: "(jsstring \<Rightarrow> jsstring) \<Rightarrow> node \<Rightarrow> jsstring" where
  "href resolve a = (case getAttribute a ''href'' of None \<Rightarrow> [] | Some v \<Rightarrow> resolve v)"

section \<open>extractResponseText\<close>

record responseData =
  resp_text :: jsstring
  resp_links :: "jsstring list"

datatype error = TimeoutError

definition articleSelector :: "selector list" where
  "articleSelector = [AttrPrefix ''article'' ''data-testid'' (js ''conversation-turn-'')]"

definition citationPillSelector :: "selector list" where
  "citationPillSelector = [AttrEq ''span'' ''data-testid'' (js ''webpage-citation-pill'')]"

definition textElementSelector :: "selector list" where
  "textElementSelector =
     map TypeSel [''p'', ''h1'', ''h2'', ''h3'', ''h4'', ''h5'', ''h6'', ''li'', ''span'',
                  ''code'', ''pre'']"

text \<open>
  The body of \<open>citationPills.forEach\<close>: the first anchor below the pill, and its
  \<open>href\<close> pushed when the anchor exists and the \<open>href\<close> is not the empty string.
\<close>

definition pushLink ::
  "(jsstring \<Rightarrow> jsstring) \<Rightarrow> jsstring list \<Rightarrow> node option \<times> node \<Rightarrow> jsstring list" where
  "pushLink resolve links pill =
     (case querySelector [TypeSel ''a''] (snd pill) of
        None \<Rightarrow> links
      | Some aTag \<Rightarrow>
          if href resolve (snd aTag) \<noteq> [] then links @ [href resolve (snd aTag)] else links)"

definition citationLinks :: "(jsstring \<Rightarrow> jsstring) \<Rightarrow> node \<Rightarrow> jsstring list" where
  "citationLinks resolve assistantArticle =
     foldl (pushLink resolve) [] (querySelectorAll citationPillSelector assistantArticle)"

text \<open>\<open>tagName.startsWith('h')\<close>\<close>

definition startsWith_h :: "string \<Rightarrow> bool" where
  "startsWith_h t = (case t of [] \<Rightarrow> False | c # _ \<Rightarrow> c = CHR ''h'')"

definition parentIsTextElement :: "node option \<Rightarrow> bool" where
  "parentIsTextElement parent =
     (case parent of
        None \<Rightarrow> False
      | Some p \<Rightarrow> tagName p \<in> set [''p'', ''h1'', ''h2'', ''h3'', ''h4'', ''h5'', ''h6'', ''li''])"

text \<open>
  The bullet of a list item as the source file spells it: a line feed, the code units
  \<open>U+00E2\<close>, \<open>U+20AC\<close>, \<open>U+00A2\<close>, and a space.
\<close>

definition bullet :: jsstring where
  "bullet = [0x0A, 0xE2, 0x20AC, 0xA2, 0x20]"

text \<open>
  What one round of \<open>textElements.forEach\<close> appends to \<open>text\<close> for the element \<open>el\<close>
  and its parent.
\<close>

definition fragment :: "node option \<times> node \<Rightarrow> jsstring" where
  "fragment pe =
     (let tag = tagName (snd pe);
          content = trim (textContent (snd pe))
      in if content \<noteq> [] then
           if startsWith_h tag then
             js ''\<newline>\<newline>'' @ content @ js ''\<newline>'' @
             replicate (length content) 0x3D @ js ''\<newline>''
           else if tag = ''li'' then bullet @ content
           else if tag = ''pre'' \<or> tag = ''code'' then
             js ''\<newline>```\<newline>'' @ content @ js ''\<newline>```\<newline>''
           else if \<not> parentIsTextElement (fst pe) then js ''\<newline>'' @ content
           else []
         else [])"

definition extractText :: "node \<Rightarrow> jsstring" where
  "extractText element =
     (let textElements = querySelectorAll textElementSelector element
      in if textElements = [] then trim (textContent element)
         else trim (foldl (\<lambda>text el. text @ fragment el) [] textElements))"

text \<open>The function evaluated in the page: the last conversation turn is the reply.\<close>

definition pageFunction :: "(jsstring \<Rightarrow> jsstring) \<Rightarrow> node \<Rightarrow> responseData" where
  "pageFunction resolve document =
     (let articles = map snd (querySelectorAll articleSelector document)
      in if articles = [] then
           \<lparr>resp_text = js ''Error: Could not find assistant response article'',
            resp_links = []\<rparr>
         else
           \<lparr>resp_text = extractText (last articles),
            resp_links = citationLinks resolve (last articles)\<rparr>)"

text \<open>
  \<open>waitForSelector\<close> rejects after its 10 s when the document holds no conversation
  turn; the document is the same at the wait and at the evaluation.
\<close>

definition extractResponseText ::
  "(jsstring \<Rightarrow> jsstring) \<Rightarrow> node \<Rightarrow> error + responseData" where
  "extractResponseText resolve document =
     (if querySelectorAll articleSelector document = [] then Inl TimeoutError
      else
        let responseData = pageFunction resolve document
        in if resp_text responseData = [] \<or> trim (resp_text responseData) = [] then
             Inr \<lparr>resp_text = js ''Error: Empty response extracted'', resp_links = []\<rparr>
           else Inr responseData)"


section \<open>waitForResponseComplete\<close>

text \<open>
  The page is seen through \<open>page.$('[data-testid="stop-button"]')\<close> only: the
  \<open>n\<close>-th lookup of a run finds the stop button (\<open>page n\<close>) or resolves to \<open>null\<close>.
  The run is recorded as the sequence of its lookups and delays; \<open>Complete\<close> marks the
  assignment \<open>stopButtonExists = false\<close>, the only way out of the loop.
\<close>

datatype wevent = Check bool | Delay nat | Complete | Extract

record wstate =
  stopButtonExists :: bool
  checkCount :: nat
  lookups :: nat
  events :: "wevent list"

definition loop_body :: "(nat \<Rightarrow> bool) \<Rightarrow> nat \<Rightarrow> wstate \<Rightarrow> wstate" where
  "loop_body page checkInterval s =
     (let s1 = s\<lparr>checkCount := checkCount s + 1\<rparr>;
          stopButton = page (lookups s1);
          s2 = s1\<lparr>lookups := lookups s1 + 1, events := events s1 @ [Check stopButton]\<rparr>;
          s3 =
            (if stopButton then s2\<lparr>stopButtonExists := True\<rparr>
             else
               let s4 = s2\<lparr>events := events s2 @ [Delay 500]\<rparr>;
                   confirmGone = page (lookups s4);
                   s5 = s4\<lparr>lookups := lookups s4 + 1,
                           events := events s4 @ [Check confirmGone]\<rparr>
               in if \<not> confirmGone then
                    s5\<lparr>stopButtonExists := False, events := events s5 @ [Complete]\<rparr>
                  else s5\<lparr>stopButtonExists := True\<rparr>)
      in if stopButtonExists s3 then s3\<lparr>events := events s3 @ [Delay checkInterval]\<rparr>
         else s3)"

partial_function (option) while_loop :: "(nat \<Rightarrow> bool) \<Rightarrow> nat \<Rightarrow> wstate \<Rightarrow> wstate option" where
  "while_loop page checkInterval s =
     (if stopButtonExists s then while_loop page checkInterval (loop_body page checkInterval s)
      else Some s)"

declare while_loop.simps [code]

definition initial :: wstate where
  "initial = \<lparr>stopButtonExists = True, checkCount = 0, lookups = 0, events = []\<rparr>"

definition waitForResponseComplete :: "(nat \<Rightarrow> bool) \<Rightarrow> nat \<Rightarrow> wevent list option" where
  "waitForResponseComplete page checkInterval =
     (case while_loop page checkInterval initial of
        None \<Rightarrow> None
      | Some s \<Rightarrow> Some (events s @ [Delay 2000]))"

text \<open>
  \<open>extractAndSaveResponse\<close> awaits \<open>waitForResponseComplete\<close> and only then enters
  \<open>extractResponseText\<close>; \<open>Extract\<close> marks that call.
\<close>

definition extractAndSaveResponse_events :: "(nat \<Rightarrow> bool) \<Rightarrow> nat \<Rightarrow> wevent list option" where
  "extractAndSaveResponse_events page checkInterval =
     (case waitForResponseComplete page checkInterval of
        None \<Rightarrow> None
      | Some evs \<Rightarrow> Some (evs @ [Extract]))"

text \<open>The lookups of a run, in order.\<close>

fun observations :: "wevent list \<Rightarrow> bool list" where
  "observations [] = []"
| "observations (Check b # evs) = b # observations evs"
| "observations (_ # evs) = observations evs"

text \<open>
  The lookups that the loop makes as the first lookup of a round (\<open>stopButton\<close>), as
  opposed to the confirmation lookup half a second later.
\<close>

inductive poll_check :: "(nat \<Rightarrow> bool) \<Rightarrow> nat \<Rightarrow> bool" for page :: "nat \<Rightarrow> bool" where
  first: "poll_check page 0"
| present: "poll_check page i \<Longrightarrow> page i \<Longrightarrow> poll_check page (Suc i)"
| reappeared:
    "poll_check page i \<Longrightarrow> \<not> page i \<Longrightarrow> page (Suc i) \<Longrightarrow> poll_check page (Suc (Suc i))"

code_pred poll_check .

section \<open>runScraper\<close>

text \<open>
  What a run does to the outside world, in order. A \<open>Logger\<close> line keeps its level,
  its namespace and its message (\<open>logger.error\<close> writes to standard error, every other
  level to standard output); \<open>ConsoleLog\<close> is a bare \<open>console.log\<close> on standard
  output; \<open>Exit\<close> is \<open>process.exit\<close>.
\<close>

datatype level = INFO | SUCCESS | WARN | ERROR | DEBUG | STEP

datatype effect =
    Log level string jsstring
  | ConsoleLog jsstring
  | CreateSession
  | CloseSession
  | Navigate jsstring
  | SubmitQuery jsstring
  | WriteFile jsstring
  | Sleep nat
  | Exit nat

text \<open>
  The collaborators of \<open>runScraper\<close>, each with the effects it has and whether it
  resolves (\<open>True\<close>) or throws: \<open>setupBrowser()\<close>; the rest of the \<open>try\<close> block
  once a browser is there (\<open>navigateToUrl\<close>, \<open>submitQueryWorkflow\<close>,
  \<open>extractAndSaveResponse\<close>, the summary and the five seconds' delay), for a given
  query; and \<open>closeBrowser(browser)\<close>.
\<close>

record world =
  setupBrowser :: "effect list \<times> bool"
  pipeline :: "jsstring \<Rightarrow> effect list \<times> bool"
  closeBrowser :: "effect list \<times> bool"

definition usage :: "effect list" where
  "usage =
     [ConsoleLog (js ''\<newline>Usage: node index.js '' @ [0x22] @ js ''Your query here'' @ [0x22]),
      ConsoleLog (js ''Example: node index.js '' @ [0x22] @ js ''How are you doing today?'' @
                  [0x22] @ js ''\<newline>'')]"

definition banner :: "jsstring \<Rightarrow> effect list" where
  "banner query =
     [Log INFO ''Main'' (replicate 80 0x3D),
      Log INFO ''Main'' (js ''ChatGPT Web Scraper Started''),
      Log INFO ''Main'' (replicate 80 0x3D),
      Log INFO ''Main'' (js ''Query: '' @ [0x22] @ query @ [0x22]),
      Log INFO ''Main'' (replicate 80 0x3D)]"

text \<open>
  \<open>process.argv[2]\<close> is \<open>undefined\<close> (\<open>None\<close>) when fewer than three entries are
  there; \<open>!query\<close> holds for \<open>undefined\<close> and for the empty string. The \<open>finally\<close>
  block closes the browser only when \<open>setupBrowser\<close> has returned one.
\<close>

definition runScraper :: "world \<Rightarrow> jsstring list \<Rightarrow> effect list \<times> nat" where
  "runScraper w argv =
     (let query = (if 2 < length argv then Some (argv ! 2) else None)
      in case query of
           None \<Rightarrow> (Log ERROR ''Main'' (js ''No query provided!'') # usage, 1)
         | Some q \<Rightarrow>
             if q = [] then (Log ERROR ''Main'' (js ''No query provided!'') # usage, 1)
             else if \<not> snd (setupBrowser w) then
               (banner q @ fst (setupBrowser w) @
                [Log ERROR ''Main'' (js ''Scraper failed with error'')], 1)
             else
               let tried = banner q @ fst (setupBrowser w) @ fst (pipeline w q) @
                     (if snd (pipeline w q) then []
                      else [Log ERROR ''Main'' (js ''Scraper failed with error'')]);
                   exitCode = (if snd (pipeline w q) then 0 else 1)
               in if snd (closeBrowser w) then (tried @ fst (closeBrowser w), exitCode)
                  else (tried @ fst (closeBrowser w) @
                        [Log ERROR ''Main'' (js ''Error closing browser during cleanup'')], 1))"

text \<open>\<open>runScraper().then((exitCode) => process.exit(exitCode))\<close>\<close>

definition main :: "world \<Rightarrow> jsstring list \<Rightarrow> effect list" where
  "main w argv = fst (runScraper w argv) @ [Exit (snd (runScraper w argv))]"

section \<open>Properties of the file name\<close>

lemma isUpper_add_0x20:
  assumes "isUpper c"
  shows "isLower (c + 0x20)"
proof -
  from assms have bounds: "65 \<le> unat c" "unat c \<le> 90"
    by (simp_all add: isUpper_def word_le_nat_alt)
  have "unat (c + 0x20) = (unat c + 32) mod 2 ^ 16"
    by (simp add: unat_word_ariths)
  with bounds have "unat (c + 0x20) = unat c + 32"
    by simp
  with bounds show ?thesis
    by (simp add: isLower_def word_le_nat_alt)
qed

lemma matches_alnum_i_ascii: "matches_alnum_i c \<Longrightarrow> c < 0x80"
  by (auto simp: matches_alnum_i_def isLower_def isUpper_def isDigit_def
        word_le_nat_alt word_less_nat_alt)

lemma replace_non_alnum_ascii:
  "c \<in> set (replace_non_alnum s) \<Longrightarrow> c < 0x80"
  by (auto simp: replace_non_alnum_def matches_alnum_i_ascii split: if_splits)

lemma replace_non_alnum_set:
  "c \<in> set (replace_non_alnum s) \<Longrightarrow> matches_alnum_i c \<or> c = 0x5F"
  by (auto simp: replace_non_alnum_def split: if_splits)

lemma lower_safe:
  assumes "matches_alnum_i c \<or> c = 0x5F"
  shows "safe_char (if isUpper c then c + 0x20 else c)"
proof (cases "isUpper c")
  case True
  then show ?thesis
    by (simp add: safe_char_def isUpper_add_0x20)
next
  case False
  with assms show ?thesis
    by (auto simp: safe_char_def matches_alnum_i_def)
qed

lemma toLowerCase_safe:
  assumes "\<And>c. c \<in> set s \<Longrightarrow> matches_alnum_i c \<or> c = 0x5F"
  shows "list_all safe_char (toLowerCase s)"
  unfolding toLowerCase_def list_all_iff
proof
  fix d
  assume "d \<in> set (map (\<lambda>c. if isUpper c then c + 0x20 else c) s)"
  then obtain c where "c \<in> set s" and d: "d = (if isUpper c then c + 0x20 else c)"
    by auto
  from assms [OF this(1)] show "safe_char d"
    unfolding d by (rule lower_safe)
qed

text \<open>
  C3. For every query string, the sanitised file-name token has at most 50 code units
  (exactly the shorter of 50 and the query's length), and every one of its code units
  is a lower-case ASCII letter, an ASCII digit or the underscore.
\<close>

theorem sanitizedQuery_safe:
  "length (sanitizedQuery q) \<le> 50 \<and>
   length (sanitizedQuery q) = min 50 (length q) \<and>
   list_all safe_char (sanitizedQuery q)"
proof -
  have "list_all safe_char (sanitizedQuery q)"
    unfolding sanitizedQuery_def
    by (rule toLowerCase_safe) (rule replace_non_alnum_set)
  moreover have "length (sanitizedQuery q) = min 50 (length q)"
    by (simp add: sanitizedQuery_def toLowerCase_def replace_non_alnum_def substring0_def
          min.commute)
  ultimately show ?thesis
    by simp
qed

theorem sanitizedQuery_safe_witness:
  "sanitizedQuery (js ''Hi, 2 U!'') = js ''hi__2_u_'' \<and>
   length (sanitizedQuery (js ''Hi, 2 U!'')) \<le> 50 \<and>
   list_all safe_char (sanitizedQuery (js ''Hi, 2 U!''))"
proof -
  have "sanitizedQuery (js ''Hi, 2 U!'') = js ''hi__2_u_''"
    by (simp add: sanitizedQuery_def toLowerCase_def replace_non_alnum_def substring0_def
          js_def matches_alnum_i_def isLower_def isUpper_def isDigit_def)
  with sanitizedQuery_safe [of "js ''Hi, 2 U!''"] show ?thesis
    by simp
qed

section \<open>Properties of trim\<close>

lemma trim_all_whitespace:
  assumes "\<And>c. c \<in> set s \<Longrightarrow> isWhiteSpace c"
  shows "trim s = []"
proof -
  from assms have e: "dropWhile isWhiteSpace s = []"
    by simp
  show ?thesis
    unfolding trim_def trimStart_def trimEnd_def e by simp
qed

lemma trim_eq_Nil_iff: "trim s = [] \<longleftrightarrow> (\<forall>c \<in> set s. isWhiteSpace c)"
proof
  assume "trim s = []"
  then have "\<forall>c \<in> set (dropWhile isWhiteSpace s). isWhiteSpace c"
    by (simp add: trim_def trimStart_def trimEnd_def dropWhile_eq_Nil_conv)
  then have "dropWhile isWhiteSpace s = []"
    by (metis dropWhile_eq_Nil_conv hd_dropWhile list.set_sel(1))
  then show "\<forall>c \<in> set s. isWhiteSpace c"
    by (simp add: dropWhile_eq_Nil_conv)
next
  assume "\<forall>c \<in> set s. isWhiteSpace c"
  then show "trim s = []" by (simp add: trim_all_whitespace)
qed

text \<open>A string that neither starts nor ends with white space, wrapped in white space.\<close>

lemma trim_wrapped:
  assumes "\<And>c. c \<in> set l \<Longrightarrow> isWhiteSpace c" "\<And>c. c \<in> set r \<Longrightarrow> isWhiteSpace c"
    and "s \<noteq> []" "\<not> isWhiteSpace (hd s)" "\<not> isWhiteSpace (last s)"
  shows "trim (l @ s @ r) = s"
proof -
  have "dropWhile isWhiteSpace (l @ s @ r) = s @ r"
    using assms(1,3,4) by (cases s) (simp_all add: dropWhile_append)
  moreover have "dropWhile isWhiteSpace (rev (s @ r)) = rev s"
    using assms(2,3,5) by (cases s rule: rev_cases) (simp_all add: dropWhile_append)
  ultimately show ?thesis
    by (simp add: trim_def trimStart_def trimEnd_def)
qed

lemma trim_hd:
  assumes "trim s \<noteq> []"
  shows "\<not> isWhiteSpace (hd (trim s))"
proof -
  let ?d = "dropWhile isWhiteSpace s"
  have t: "trim s = rev (dropWhile isWhiteSpace (rev ?d))"
    by (simp add: trim_def trimStart_def trimEnd_def)
  have ne: "?d \<noteq> []"
  proof
    assume e: "?d = []"
    have "trim s = []"
      unfolding t e by simp
    with assms show False ..
  qed
  then have h: "\<not> isWhiteSpace (hd ?d)"
    by (rule hd_dropWhile)
  obtain x xs where d: "?d = x # xs"
    using ne by (cases ?d) auto
  with h have x: "\<not> isWhiteSpace x" by simp
  have "dropWhile isWhiteSpace (rev xs @ [x]) = dropWhile isWhiteSpace (rev xs) @ [x]"
    using x by (simp add: dropWhile_append)
  then have "trim s = x # rev (dropWhile isWhiteSpace (rev xs))"
    unfolding t d by simp
  with x show ?thesis by simp
qed

lemma trim_last:
  assumes "trim s \<noteq> []"
  shows "\<not> isWhiteSpace (last (trim s))"
proof -
  let ?e = "dropWhile isWhiteSpace (rev (dropWhile isWhiteSpace s))"
  have t: "trim s = rev ?e"
    by (simp add: trim_def trimStart_def trimEnd_def)
  with assms have "?e \<noteq> []" by simp
  then have "\<not> isWhiteSpace (hd ?e)"
    by (rule hd_dropWhile)
  moreover have "last (rev ?e) = hd ?e"
    using \<open>?e \<noteq> []\<close> by (simp add: last_rev)
  ultimately show ?thesis
    unfolding t by simp
qed

lemma isWhiteSpace_newline: "isWhiteSpace 0x0A"
  by (simp add: isWhiteSpace_def)

lemma js_newline: "js ''\<newline>'' = [0x0A]" "js ''\<newline>\<newline>'' = [0x0A, 0x0A]"
  by (simp_all add: js_def)

section \<open>Properties of the completion loop\<close>

lemma loop_body_present:
  "page (lookups s) \<Longrightarrow>
   loop_body page ci s =
     s\<lparr>stopButtonExists := True, checkCount := checkCount s + 1, lookups := lookups s + 1,
       events := events s @ [Check True, Delay ci]\<rparr>"
  by (simp add: loop_body_def Let_def)

lemma loop_body_reappeared:
  "\<not> page (lookups s) \<Longrightarrow> page (Suc (lookups s)) \<Longrightarrow>
   loop_body page ci s =
     s\<lparr>stopButtonExists := True, checkCount := checkCount s + 1, lookups := lookups s + 2,
       events := events s @ [Check False, Delay 500, Check True, Delay ci]\<rparr>"
  by (simp add: loop_body_def Let_def)

lemma loop_body_gone:
  "\<not> page (lookups s) \<Longrightarrow> \<not> page (Suc (lookups s)) \<Longrightarrow>
   loop_body page ci s =
     s\<lparr>stopButtonExists := False, checkCount := checkCount s + 1, lookups := lookups s + 2,
       events := events s @ [Check False, Delay 500, Check False, Complete]\<rparr>"
  by (simp add: loop_body_def Let_def)

lemma loop_body_cases:
  obtains
    (present) "page (lookups s)"
      "loop_body page ci s =
         s\<lparr>stopButtonExists := True, checkCount := checkCount s + 1, lookups := lookups s + 1,
           events := events s @ [Check True, Delay ci]\<rparr>"
  | (reappeared) "\<not> page (lookups s)" "page (Suc (lookups s))"
      "loop_body page ci s =
         s\<lparr>stopButtonExists := True, checkCount := checkCount s + 1, lookups := lookups s + 2,
           events := events s @ [Check False, Delay 500, Check True, Delay ci]\<rparr>"
  | (gone) "\<not> page (lookups s)" "\<not> page (Suc (lookups s))"
      "loop_body page ci s =
         s\<lparr>stopButtonExists := False, checkCount := checkCount s + 1, lookups := lookups s + 2,
           events := events s @ [Check False, Delay 500, Check False, Complete]\<rparr>"
proof (cases "page (lookups s)")
  case True
  then show ?thesis
    using present loop_body_present by simp
next
  case False
  show ?thesis
  proof (cases "page (Suc (lookups s))")
    case True
    with False show ?thesis
      using reappeared loop_body_reappeared by simp
  next
    case n: False
    with False show ?thesis
      using gone loop_body_gone by simp
  qed
qed



lemma while_loop_invariant:
  assumes run: "while_loop page ci s = Some r"
    and init: "I s"
    and step: "\<And>t. I t \<Longrightarrow> stopButtonExists t \<Longrightarrow> I (loop_body page ci t)"
  shows "I r \<and> \<not> stopButtonExists r"
proof -
  have "page = page \<longrightarrow> ci = ci \<longrightarrow> I s \<longrightarrow> I r \<and> \<not> stopButtonExists r"
  proof (rule while_loop.raw_induct
      [where P = "\<lambda>p c t y. p = page \<longrightarrow> c = ci \<longrightarrow> I t \<longrightarrow> I y \<and> \<not> stopButtonExists y",
        OF _ run])
    fix f :: "(nat \<Rightarrow> bool) \<Rightarrow> nat \<Rightarrow> wstate \<Rightarrow> wstate option"
    fix p c t y
    assume IH: "\<And>p c t y. f p c t = Some y \<Longrightarrow>
                 p = page \<longrightarrow> c = ci \<longrightarrow> I t \<longrightarrow> I y \<and> \<not> stopButtonExists y"
      and eq: "(if stopButtonExists t then f p c (loop_body p c t) else Some t) = Some y"
    show "p = page \<longrightarrow> c = ci \<longrightarrow> I t \<longrightarrow> I y \<and> \<not> stopButtonExists y"
    proof (cases "stopButtonExists t")
      case True
      with eq have "f p c (loop_body p c t) = Some y" by simp
      from IH [OF this] True step show ?thesis by blast
    next
      case False
      with eq show ?thesis by auto
    qed
  qed
  with init show ?thesis by blast
qed

lemma while_loop_unfold_running:
  "stopButtonExists s \<Longrightarrow>
   while_loop page ci s = while_loop page ci (loop_body page ci s)"
  by (subst while_loop.simps) simp

lemma while_loop_stopped:
  "\<not> stopButtonExists s \<Longrightarrow> while_loop page ci s = Some s"
  by (subst while_loop.simps) simp

lemma while_loop_terminates:
  assumes "stopButtonExists s" "lookups s \<le> j" "\<not> page j" "\<not> page (Suc j)"
  shows "\<exists>r. while_loop page ci s = Some r"
  using assms
proof (induction "j - lookups s" arbitrary: s rule: less_induct)
  case less
  show ?case
  proof (cases rule: loop_body_cases [of page s ci])
    case present
    with less.prems have "lookups s \<noteq> j" by auto
    with less.prems have lt: "lookups s < j" by simp
    have "\<exists>r. while_loop page ci (loop_body page ci s) = Some r"
    proof (rule less.hyps)
      show "j - lookups (loop_body page ci s) < j - lookups s"
        using lt present(2) by simp
      show "stopButtonExists (loop_body page ci s)" using present(2) by simp
      show "lookups (loop_body page ci s) \<le> j" using lt present(2) by simp
    qed (fact less.prems)+
    with less.prems(1) show ?thesis
      by (simp add: while_loop_unfold_running)
  next
    case reappeared
    with less.prems have "lookups s \<noteq> j" "Suc (lookups s) \<noteq> j" by auto
    with less.prems have lt: "lookups s + 2 \<le> j" by arith
    have "\<exists>r. while_loop page ci (loop_body page ci s) = Some r"
    proof (rule less.hyps)
      show "j - lookups (loop_body page ci s) < j - lookups s"
        using lt reappeared(3) by simp
      show "stopButtonExists (loop_body page ci s)" using reappeared(3) by simp
      show "lookups (loop_body page ci s) \<le> j" using lt reappeared(3) by simp
    qed (fact less.prems)+
    with less.prems(1) show ?thesis
      by (simp add: while_loop_unfold_running)
  next
    case gone
    then have "\<not> stopButtonExists (loop_body page ci s)" by simp
    then have "while_loop page ci (loop_body page ci s) = Some (loop_body page ci s)"
      by (rule while_loop_stopped)
    with less.prems(1) show ?thesis
      by (simp add: while_loop_unfold_running)
  qed
qed

lemma observations_append:
  "observations (xs @ ys) = observations xs @ observations ys"
  by (induction xs rule: observations.induct) simp_all

lemma while_loop_poll_check:
  assumes run: "while_loop page ci s = Some r"
    and "stopButtonExists s" "poll_check page (lookups s)"
  shows "\<exists>i. poll_check page i \<and> \<not> page i \<and> \<not> page (Suc i)"
proof -
  let ?I = "\<lambda>t::wstate. if stopButtonExists t then poll_check page (lookups t)
                 else \<exists>i. poll_check page i \<and> \<not> page i \<and> \<not> page (Suc i)"
  have "?I r \<and> \<not> stopButtonExists r"
  proof (rule while_loop_invariant [OF run])
    show "?I s" using assms by simp
  next
    fix t :: wstate assume t: "?I t" "stopButtonExists t"
    then have pc: "poll_check page (lookups t)" by simp
    show "?I (loop_body page ci t)"
    proof (cases rule: loop_body_cases [of page t ci])
      case present
      with pc show ?thesis by (simp add: poll_check.present)
    next
      case reappeared
      with pc show ?thesis by (simp add: poll_check.reappeared)
    next
      case gone
      with pc have "poll_check page (lookups t) \<and> \<not> page (lookups t) \<and> \<not> page (Suc (lookups t))"
        by simp
      then have "\<exists>i. poll_check page i \<and> \<not> page i \<and> \<not> page (Suc i)" ..
      with gone(3) show ?thesis by simp
    qed
  qed
  then show ?thesis by simp
qed

lemma while_loop_always_present:
  assumes "\<And>n. page n" "stopButtonExists s"
  shows "while_loop page ci s = None"
proof (rule ccontr)
  assume "while_loop page ci s \<noteq> None"
  then obtain r where run: "while_loop page ci s = Some r" by auto
  have "stopButtonExists r \<and> \<not> stopButtonExists r"
  proof (rule while_loop_invariant [OF run])
    show "stopButtonExists s" by fact
  next
    fix t :: wstate assume "stopButtonExists t"
    from assms(1) show "stopButtonExists (loop_body page ci t)"
      by (simp add: loop_body_present)
  qed
  then show False by simp
qed

text \<open>A run of \<open>k\<close> rounds that find the button, then a confirmed absence.\<close>

lemma while_loop_present_run:
  assumes "stopButtonExists s"
    and "\<And>n. n < k \<Longrightarrow> page (lookups s + n)"
    and "\<not> page (lookups s + k)" "\<not> page (Suc (lookups s + k))"
  shows "while_loop page ci s =
     Some (s\<lparr>stopButtonExists := False, checkCount := checkCount s + k + 1,
              lookups := lookups s + k + 2,
              events := events s @ concat (replicate k [Check True, Delay ci]) @
                        [Check False, Delay 500, Check False, Complete]\<rparr>)"
  using assms
proof (induction k arbitrary: s)
  case 0
  then have "loop_body page ci s =
     s\<lparr>stopButtonExists := False, checkCount := checkCount s + 1, lookups := lookups s + 2,
       events := events s @ [Check False, Delay 500, Check False, Complete]\<rparr>"
    by (simp add: loop_body_gone)
  with 0(1) show ?case
    by (simp add: while_loop_unfold_running while_loop_stopped)
next
  case (Suc k)
  let ?t = "loop_body page ci s"
  from Suc.prems(2) [of 0] have p0: "page (lookups s)" by simp
  then have t: "?t = s\<lparr>stopButtonExists := True, checkCount := checkCount s + 1,
       lookups := lookups s + 1, events := events s @ [Check True, Delay ci]\<rparr>"
    by (rule loop_body_present)
  have "while_loop page ci ?t =
     Some (?t\<lparr>stopButtonExists := False, checkCount := checkCount ?t + k + 1,
              lookups := lookups ?t + k + 2,
              events := events ?t @ concat (replicate k [Check True, Delay ci]) @
                        [Check False, Delay 500, Check False, Complete]\<rparr>)"
  proof (rule Suc.IH)
    show "stopButtonExists ?t" by (simp add: t)
    show "page (lookups ?t + n)" if "n < k" for n
      using Suc.prems(2) [of "Suc n"] that by (simp add: t)
    show "\<not> page (lookups ?t + k)" using Suc.prems(3) by (simp add: t)
    show "\<not> page (Suc (lookups ?t + k))" using Suc.prems(4) by (simp add: t)
  qed
  with Suc.prems(1) show ?case
    by (simp add: while_loop_unfold_running t)
qed

text \<open>The shape of a finished run's record.\<close>

lemma while_loop_events:
  assumes run: "while_loop page ci s = Some r"
    and "stopButtonExists s" "Complete \<notin> set (events s)"
      "observations (events s) = map page [0..<lookups s]"
  shows "\<exists>pre n. events r = pre @ [Check False, Delay 500, Check False, Complete] \<and>
        Complete \<notin> set pre \<and> observations pre = map page [0..<n] \<and>
        \<not> page n \<and> \<not> page (Suc n)"
proof -
  let ?C = "\<lambda>t::wstate. \<exists>pre n. events t = pre @ [Check False, Delay 500, Check False, Complete] \<and>
        Complete \<notin> set pre \<and> observations pre = map page [0..<n] \<and>
        \<not> page n \<and> \<not> page (Suc n)"
  let ?I = "\<lambda>t::wstate. if stopButtonExists t
                 then Complete \<notin> set (events t) \<and>
                      observations (events t) = map page [0..<lookups t]
                 else ?C t"
  have "?I r \<and> \<not> stopButtonExists r"
  proof (rule while_loop_invariant [OF run])
    show "?I s" using assms by simp
  next
    fix t :: wstate assume t: "?I t" "stopButtonExists t"
    then have inv: "Complete \<notin> set (events t)"
      "observations (events t) = map page [0..<lookups t]" by simp_all
    show "?I (loop_body page ci t)"
    proof (cases rule: loop_body_cases [of page t ci])
      case present
      with inv show ?thesis by (simp add: observations_append)
    next
      case reappeared
      with inv show ?thesis by (simp add: observations_append)
    next
      case gone
      from inv gone(1,2)
      have "events t @ [Check False, Delay 500, Check False, Complete] =
              events t @ [Check False, Delay 500, Check False, Complete] \<and>
            Complete \<notin> set (events t) \<and>
            observations (events t) = map page [0..<lookups t] \<and>
            \<not> page (lookups t) \<and> \<not> page (Suc (lookups t))"
        by simp
      then have "\<exists>pre n. events t @ [Check False, Delay 500, Check False, Complete] =
              pre @ [Check False, Delay 500, Check False, Complete] \<and>
            Complete \<notin> set pre \<and> observations pre = map page [0..<n] \<and>
            \<not> page n \<and> \<not> page (Suc n)"
        by blast
      with gone(3) show ?thesis by simp
    qed
  qed
  then have "?I r" and "\<not> stopButtonExists r"
    by blast+
  then show ?thesis
    by (simp only: if_False)
qed

lemma concat_replicate_Suc_end:
  "concat (replicate (Suc m) xs) = concat (replicate m xs) @ xs"
  by (induction m) simp_all

lemma rounds_all_present:
  assumes "\<And>n. n < m \<Longrightarrow> page n"
  shows "(loop_body page ci ^^ m) initial =
     initial\<lparr>checkCount := m, lookups := m,
       events := concat (replicate m [Check True, Delay ci])\<rparr>"
  using assms
proof (induction m)
  case 0
  show ?case by (simp add: initial_def)
next
  case (Suc m)
  let ?r = "(loop_body page ci ^^ m) initial"
  from Suc have IH: "?r =
     initial\<lparr>checkCount := m, lookups := m,
       events := concat (replicate m [Check True, Delay ci])\<rparr>"
    by simp
  have "page (lookups ?r)"
    using Suc.prems [of m] by (simp add: IH)
  then have "loop_body page ci ?r =
     ?r\<lparr>stopButtonExists := True, checkCount := checkCount ?r + 1, lookups := lookups ?r + 1,
       events := events ?r @ [Check True, Delay ci]\<rparr>"
    by (rule loop_body_present)
  also have "\<dots> = initial\<lparr>checkCount := Suc m, lookups := Suc m,
       events := concat (replicate (Suc m) [Check True, Delay ci])\<rparr>"
    unfolding IH concat_replicate_Suc_end by (simp add: initial_def)
  finally show ?case by simp
qed

lemma waitForResponseComplete_Some:
  "waitForResponseComplete page ci = Some evs \<longleftrightarrow>
     (\<exists>r. while_loop page ci initial = Some r \<and> evs = events r @ [Delay 2000])"
  by (auto simp: waitForResponseComplete_def split: option.splits)

lemma waitForResponseComplete_None:
  "waitForResponseComplete page ci = None \<longleftrightarrow> while_loop page ci initial = None"
  by (simp add: waitForResponseComplete_def split: option.splits)

text \<open>
  C1. The loop leaves \<open>GENERATING\<close> only on a confirmed absence. A finished run's record
  ends with a lookup that found nothing, the 500 ms pause, a second lookup that found
  nothing, and the transition; these are two consecutive lookups of the page's trace,
  and no transition happens before. A round leaves the loop exactly when its lookup and
  its confirmation both find nothing; when the confirmation finds the button again the
  round stays in \<open>GENERATING\<close> and sleeps the poll interval. While every lookup finds
  the button, every round ends in \<open>GENERATING\<close> and no transition is recorded.
\<close>

theorem complete_only_after_confirmed_absence:
  "(waitForResponseComplete page ci = Some evs \<longrightarrow>
      (\<exists>pre n. evs = pre @ [Check False, Delay 500, Check False, Complete, Delay 2000] \<and>
         Complete \<notin> set pre \<and> observations pre = map page [0..<n] \<and>
         \<not> page n \<and> \<not> page (Suc n))) \<and>
   (\<not> stopButtonExists (loop_body page ci s) \<longleftrightarrow>
      \<not> page (lookups s) \<and> \<not> page (Suc (lookups s))) \<and>
   (\<not> page (lookups s) \<and> page (Suc (lookups s)) \<longrightarrow>
      stopButtonExists (loop_body page ci s) \<and>
      events (loop_body page ci s) =
        events s @ [Check False, Delay 500, Check True, Delay ci]) \<and>
   ((\<forall>n<m. page n) \<longrightarrow>
      stopButtonExists ((loop_body page ci ^^ m) initial) \<and>
      Complete \<notin> set (events ((loop_body page ci ^^ m) initial)))"
proof (intro conjI impI)
  assume "waitForResponseComplete page ci = Some evs"
  then obtain r where run: "while_loop page ci initial = Some r"
    and evs: "evs = events r @ [Delay 2000]"
    by (auto simp: waitForResponseComplete_Some)
  have "\<exists>pre n. events r = pre @ [Check False, Delay 500, Check False, Complete] \<and>
        Complete \<notin> set pre \<and> observations pre = map page [0..<n] \<and>
        \<not> page n \<and> \<not> page (Suc n)"
    by (rule while_loop_events [OF run]) (simp_all add: initial_def)
  then show "\<exists>pre n. evs = pre @ [Check False, Delay 500, Check False, Complete, Delay 2000] \<and>
         Complete \<notin> set pre \<and> observations pre = map page [0..<n] \<and>
         \<not> page n \<and> \<not> page (Suc n)"
    unfolding evs by auto
next
  show "\<not> stopButtonExists (loop_body page ci s) \<longleftrightarrow>
      \<not> page (lookups s) \<and> \<not> page (Suc (lookups s))"
    by (cases rule: loop_body_cases [of page s ci]) simp_all
next
  assume "\<not> page (lookups s) \<and> page (Suc (lookups s))"
  then have "loop_body page ci s =
     s\<lparr>stopButtonExists := True, checkCount := checkCount s + 1, lookups := lookups s + 2,
       events := events s @ [Check False, Delay 500, Check True, Delay ci]\<rparr>"
    by (simp add: loop_body_reappeared)
  then show "stopButtonExists (loop_body page ci s)"
    and "events (loop_body page ci s) =
        events s @ [Check False, Delay 500, Check True, Delay ci]"
    by simp_all
next
  assume "\<forall>n<m. page n"
  then have r: "(loop_body page ci ^^ m) initial =
     initial\<lparr>checkCount := m, lookups := m,
       events := concat (replicate m [Check True, Delay ci])\<rparr>"
    by (intro rounds_all_present) simp
  show "stopButtonExists ((loop_body page ci ^^ m) initial)"
    unfolding r by (simp add: initial_def)
  show "Complete \<notin> set (events ((loop_body page ci ^^ m) initial))"
    unfolding r by auto
qed

theorem complete_only_after_confirmed_absence_witness:
  "waitForResponseComplete (\<lambda>n. n = 1) 1000 =
     Some [Check False, Delay 500, Check True, Delay 1000,
           Check False, Delay 500, Check False, Complete, Delay 2000] \<and>
   (\<exists>pre n. [Check False, Delay 500, Check True, Delay 1000,
             Check False, Delay 500, Check False, Complete, Delay 2000] =
        pre @ [Check False, Delay 500, Check False, Complete, Delay 2000] \<and>
        Complete \<notin> set pre \<and> observations pre = map (\<lambda>n. n = 1) [0..<n] \<and>
        \<not> (\<lambda>n. n = 1) n \<and> \<not> (\<lambda>n. n = 1) (Suc n)) \<and>
   stopButtonExists (loop_body (\<lambda>n. n = 1) 1000 initial) \<and>
   events (loop_body (\<lambda>n. n = 1) 1000 initial) =
     [Check False, Delay 500, Check True, Delay 1000] \<and>
   stopButtonExists ((loop_body (\<lambda>n. n < 2) 1000 ^^ 2) initial) \<and>
   Complete \<notin> set (events ((loop_body (\<lambda>n. n < 2) 1000 ^^ 2) initial))"
proof -
  have run: "waitForResponseComplete (\<lambda>n. n = 1) 1000 =
     Some [Check False, Delay 500, Check True, Delay 1000,
           Check False, Delay 500, Check False, Complete, Delay 2000]"
    by code_simp
  have l0: "lookups initial = 0" "events initial = []"
    by (simp_all add: initial_def)
  have all: "\<forall>n<2. (\<lambda>n::nat. n < 2) n"
    by simp
  note inst1 = complete_only_after_confirmed_absence
    [of "\<lambda>n. n = 1" 1000
      "[Check False, Delay 500, Check True, Delay 1000,
        Check False, Delay 500, Check False, Complete, Delay 2000]" initial 0]
  note inst2 = complete_only_after_confirmed_absence
    [of "\<lambda>n. n < 2" 1000 "[]" initial 2]
  from inst1 run l0 have a: "\<exists>pre n. [Check False, Delay 500, Check True, Delay 1000,
             Check False, Delay 500, Check False, Complete, Delay 2000] =
        pre @ [Check False, Delay 500, Check False, Complete, Delay 2000] \<and>
        Complete \<notin> set pre \<and> observations pre = map (\<lambda>n. n = 1) [0..<n] \<and>
        \<not> (\<lambda>n. n = 1) n \<and> \<not> (\<lambda>n. n = 1) (Suc n)"
    by blast
  from inst1 l0 have b: "stopButtonExists (loop_body (\<lambda>n. n = 1) 1000 initial)"
    "events (loop_body (\<lambda>n. n = 1) 1000 initial) =
       [Check False, Delay 500, Check True, Delay 1000]"
    by simp_all
  from inst2 all have c: "stopButtonExists ((loop_body (\<lambda>n. n < 2) 1000 ^^ 2) initial)"
    "Complete \<notin> set (events ((loop_body (\<lambda>n. n < 2) 1000 ^^ 2) initial))"
    by blast+
  from run a b c show ?thesis
    by blast
qed

text \<open>
  C2. With the button found by the first two lookups and by none after, a poll interval
  of 1000 ms and the 500 ms debounce, the run is: two rounds that each sleep 1000 ms,
  a lookup that finds nothing, the 500 ms pause, the confirming lookup, the transition,
  and the 2000 ms settle delay; extraction is entered after that.
\<close>

theorem two_ticks_then_complete:
  "waitForResponseComplete (\<lambda>n. n < 2) 1000 =
     Some [Check True, Delay 1000, Check True, Delay 1000,
           Check False, Delay 500, Check False, Complete, Delay 2000] \<and>
   extractAndSaveResponse_events (\<lambda>n. n < 2) 1000 =
     Some [Check True, Delay 1000, Check True, Delay 1000,
           Check False, Delay 500, Check False, Complete, Delay 2000, Extract] \<and>
   count_list [Check True, Delay 1000, Check True, Delay 1000,
           Check False, Delay 500, Check False, Complete, Delay 2000] (Delay 1000) = 2 \<and>
   count_list [Check True, Delay 1000, Check True, Delay 1000,
           Check False, Delay 500, Check False, Complete, Delay 2000] (Delay 500) = 1"
proof -
  have "while_loop (\<lambda>n. n < 2) 1000 initial =
     Some (initial\<lparr>stopButtonExists := False, checkCount := checkCount initial + 2 + 1,
              lookups := lookups initial + 2 + 2,
              events := events initial @ concat (replicate 2 [Check True, Delay 1000]) @
                        [Check False, Delay 500, Check False, Complete]\<rparr>)"
    by (rule while_loop_present_run) (simp_all add: initial_def)
  then have run: "waitForResponseComplete (\<lambda>n. n < 2) 1000 =
     Some [Check True, Delay 1000, Check True, Delay 1000,
           Check False, Delay 500, Check False, Complete, Delay 2000]"
    by (simp add: waitForResponseComplete_def initial_def eval_nat_numeral)
  then show ?thesis
    by (simp add: extractAndSaveResponse_events_def)
qed

text \<open>
  C8. The loop has no bound on its rounds. It returns exactly when some round's lookup
  finds nothing and its confirmation finds nothing either; on a trace whose every lookup
  finds the button it never returns; and for every \<open>k\<close> the trace that shows the button
  to the first \<open>k\<close> lookups makes it run \<open>k\<close> full rounds before the round that ends it.
\<close>

theorem loop_returns_iff_confirmed_absence:
  "(waitForResponseComplete page ci \<noteq> None \<longleftrightarrow>
      (\<exists>i. poll_check page i \<and> \<not> page i \<and> \<not> page (Suc i))) \<and>
   ((\<forall>n. page n) \<longrightarrow> waitForResponseComplete page ci = None) \<and>
   waitForResponseComplete (\<lambda>n. n < k) ci =
     Some (concat (replicate k [Check True, Delay ci]) @
           [Check False, Delay 500, Check False, Complete, Delay 2000])"
proof (intro conjI impI iffI)
  assume "waitForResponseComplete page ci \<noteq> None"
  then obtain r where "while_loop page ci initial = Some r"
    by (auto simp: waitForResponseComplete_None)
  then show "\<exists>i. poll_check page i \<and> \<not> page i \<and> \<not> page (Suc i)"
    by (rule while_loop_poll_check) (simp_all add: initial_def poll_check.first)
next
  assume "\<exists>i. poll_check page i \<and> \<not> page i \<and> \<not> page (Suc i)"
  then obtain i where "\<not> page i" "\<not> page (Suc i)"
    by blast
  then have "\<exists>r. while_loop page ci initial = Some r"
    by (intro while_loop_terminates [of initial i]) (simp_all add: initial_def)
  then show "waitForResponseComplete page ci \<noteq> None"
    by (auto simp: waitForResponseComplete_None)
next
  assume "\<forall>n. page n"
  then have "while_loop page ci initial = None"
    by (intro while_loop_always_present) (simp_all add: initial_def)
  then show "waitForResponseComplete page ci = None"
    by (simp add: waitForResponseComplete_None)
next
  have "while_loop (\<lambda>n. n < k) ci initial =
     Some (initial\<lparr>stopButtonExists := False, checkCount := checkCount initial + k + 1,
              lookups := lookups initial + k + 2,
              events := events initial @ concat (replicate k [Check True, Delay ci]) @
                        [Check False, Delay 500, Check False, Complete]\<rparr>)"
    by (rule while_loop_present_run) (simp_all add: initial_def)
  then show "waitForResponseComplete (\<lambda>n. n < k) ci =
     Some (concat (replicate k [Check True, Delay ci]) @
           [Check False, Delay 500, Check False, Complete, Delay 2000])"
    by (simp add: waitForResponseComplete_def initial_def)
qed

theorem loop_returns_iff_confirmed_absence_witness:
  "poll_check (\<lambda>n. n = 1) 2 \<and>
   waitForResponseComplete (\<lambda>n. n = 1) 1000 \<noteq> None \<and>
   waitForResponseComplete (\<lambda>n. True) 1000 = None \<and>
   waitForResponseComplete (\<lambda>n. n < 3) 1000 =
     Some [Check True, Delay 1000, Check True, Delay 1000, Check True, Delay 1000,
           Check False, Delay 500, Check False, Complete, Delay 2000]"
proof -
  have "poll_check (\<lambda>n. n = 1) (Suc (Suc 0))"
    by (rule poll_check.reappeared) (simp_all add: poll_check.first)
  then have pc: "poll_check (\<lambda>n. n = 1) 2"
    by (simp only: numeral_2_eq_2)
  then have ex: "\<exists>i. poll_check (\<lambda>n. n = 1) i \<and> \<not> (\<lambda>n. n = 1) i \<and> \<not> (\<lambda>n. n = 1) (Suc i)"
    by (intro exI [of _ 2]) simp
  from loop_returns_iff_confirmed_absence [of "\<lambda>n. n = 1" 1000 0] ex
  have a: "waitForResponseComplete (\<lambda>n. n = 1) 1000 \<noteq> None"
    by blast
  from loop_returns_iff_confirmed_absence [of "\<lambda>n. True" 1000 3]
  have b: "waitForResponseComplete (\<lambda>n. True) 1000 = None"
    and c: "waitForResponseComplete (\<lambda>n. n < 3) 1000 =
     Some (concat (replicate 3 [Check True, Delay 1000]) @
           [Check False, Delay 500, Check False, Complete, Delay 2000])"
    by simp_all
  from c have "waitForResponseComplete (\<lambda>n. n < 3) 1000 =
     Some [Check True, Delay 1000, Check True, Delay 1000, Check True, Delay 1000,
           Check False, Delay 500, Check False, Complete, Delay 2000]"
    by (simp add: eval_nat_numeral)
  with pc a b show ?thesis
    by simp
qed

section \<open>Properties of the orchestrator\<close>

text \<open>
  C9. Invoked without a query argument, the process logs the error on standard error,
  prints the two usage lines on standard output with \<open>console.log\<close> and exits with
  code 1; none of the collaborators runs, so no browsing session is created and no file
  is written.
\<close>

theorem no_query_usage_exit_1:
  "length argv \<le> 2 \<longrightarrow>
     main w argv =
       [Log ERROR ''Main'' (js ''No query provided!''),
        ConsoleLog (js ''\<newline>Usage: node index.js '' @ [0x22] @ js ''Your query here'' @ [0x22]),
        ConsoleLog (js ''Example: node index.js '' @ [0x22] @ js ''How are you doing today?'' @
                    [0x22] @ js ''\<newline>''),
        Exit 1] \<and>
     CreateSession \<notin> set (main w argv) \<and>
     (\<forall>f. WriteFile f \<notin> set (main w argv))"
  by (auto simp: main_def runScraper_def usage_def)

theorem no_query_usage_exit_1_witness:
  "length [js ''node'', js ''index.js''] \<le> 2 \<and>
   main \<lparr>setupBrowser = ([CreateSession], True),
         pipeline = (\<lambda>q. ([WriteFile q], True)),
         closeBrowser = ([CloseSession], True)\<rparr> [js ''node'', js ''index.js''] =
     [Log ERROR ''Main'' (js ''No query provided!''),
      ConsoleLog (js ''\<newline>Usage: node index.js '' @ [0x22] @ js ''Your query here'' @ [0x22]),
      ConsoleLog (js ''Example: node index.js '' @ [0x22] @ js ''How are you doing today?'' @
                  [0x22] @ js ''\<newline>''),
      Exit 1] \<and>
   CreateSession \<in> set (main \<lparr>setupBrowser = ([CreateSession], True),
         pipeline = (\<lambda>q. ([WriteFile q], True)),
         closeBrowser = ([CloseSession], True)\<rparr> [js ''node'', js ''index.js'', js ''hi'']) \<and>
   WriteFile (js ''hi'') \<in> set (main \<lparr>setupBrowser = ([CreateSession], True),
         pipeline = (\<lambda>q. ([WriteFile q], True)),
         closeBrowser = ([CloseSession], True)\<rparr> [js ''node'', js ''index.js'', js ''hi''])"
proof -
  have len: "length [js ''node'', js ''index.js''] \<le> 2"
    by simp
  have run: "CreateSession \<in> set (main \<lparr>setupBrowser = ([CreateSession], True),
         pipeline = (\<lambda>q. ([WriteFile q], True)),
         closeBrowser = ([CloseSession], True)\<rparr> [js ''node'', js ''index.js'', js ''hi''])"
    "WriteFile (js ''hi'') \<in> set (main \<lparr>setupBrowser = ([CreateSession], True),
         pipeline = (\<lambda>q. ([WriteFile q], True)),
         closeBrowser = ([CloseSession], True)\<rparr> [js ''node'', js ''index.js'', js ''hi''])"
    by (simp_all add: main_def runScraper_def js_def)
  from no_query_usage_exit_1
    [of "[js ''node'', js ''index.js'']"
      "\<lparr>setupBrowser = ([CreateSession], True),
         pipeline = (\<lambda>q. ([WriteFile q], True)),
         closeBrowser = ([CloseSession], True)\<rparr>"] len run
  show ?thesis
    by blast
qed

section \<open>Properties of extractResponseText\<close>

lemma foldl_fragment:
  "foldl (\<lambda>text el. text @ fragment el) acc els = acc @ concat (map fragment els)"
  by (induction els arbitrary: acc) simp_all

lemma extractText_fragments:
  assumes "querySelectorAll textElementSelector element = els" "els \<noteq> []"
  shows "extractText element = trim (concat (map fragment els))"
  using assms by (simp add: extractText_def foldl_fragment)

lemma descendants_parent:
  "pe \<in> set (descendants root) \<Longrightarrow> \<exists>p. fst pe = Some p \<and> isElement p \<and> isElement (snd pe)"
proof (induction root rule: descendants.induct)
  case (1 tag attrs cs)
  then obtain c where c: "c \<in> set cs"
    and pe: "pe \<in> set ((if isElement c then [(Some (Element tag attrs cs), c)] else []) @
                        descendants c)"
    by auto
  show ?case
  proof (cases "pe \<in> set (descendants c)")
    case True
    with 1(1) c show ?thesis by blast
  next
    case False
    with pe have "isElement c" "pe = (Some (Element tag attrs cs), c)"
      by (auto split: if_splits)
    then show ?thesis by simp
  qed
qed simp_all

lemma textContent_descendant:
  "pe \<in> set (descendants root) \<Longrightarrow> set (textContent (snd pe)) \<subseteq> set (textContent root)"
proof (induction root rule: descendants.induct)
  case (1 tag attrs cs)
  then obtain c where c: "c \<in> set cs"
    and pe: "pe \<in> set ((if isElement c then [(Some (Element tag attrs cs), c)] else []) @
                        descendants c)"
    by auto
  have sub: "set (textContent c) \<subseteq> set (textContent (Element tag attrs cs))"
    using c by auto
  show ?case
  proof (cases "pe \<in> set (descendants c)")
    case True
    with 1(1) c have "set (textContent (snd pe)) \<subseteq> set (textContent c)" by blast
    with sub show ?thesis by blast
  next
    case False
    with pe have "pe = (Some (Element tag attrs cs), c)"
      by (auto split: if_splits)
    with sub show ?thesis by simp
  qed
qed simp_all

lemma querySelectorAll_subset:
  "pe \<in> set (querySelectorAll sels root) \<Longrightarrow> pe \<in> set (descendants root)"
  by (simp add: querySelectorAll_def)

lemma textElement_tag:
  assumes "pe \<in> set (querySelectorAll textElementSelector root)"
  shows "tagName (snd pe) \<in> set [''p'', ''h1'', ''h2'', ''h3'', ''h4'', ''h5'', ''h6'', ''li'',
           ''span'', ''code'', ''pre'']"
  using assms by (auto simp: querySelectorAll_def textElementSelector_def)

text \<open>A subtree whose text is white space only yields the empty text.\<close>

lemma fragment_whitespace:
  assumes "\<And>c. c \<in> set (textContent (snd pe)) \<Longrightarrow> isWhiteSpace c"
  shows "fragment pe = []"
proof -
  from assms have "trim (textContent (snd pe)) = []"
    by (rule trim_all_whitespace)
  then show ?thesis
    by (simp add: fragment_def)
qed

lemma extractText_whitespace:
  assumes ws: "\<And>c. c \<in> set (textContent element) \<Longrightarrow> isWhiteSpace c"
  shows "extractText element = []"
proof -
  have "fragment pe = []" if "pe \<in> set (querySelectorAll textElementSelector element)" for pe
  proof (rule fragment_whitespace)
    fix c assume "c \<in> set (textContent (snd pe))"
    with that textContent_descendant [of pe element] have "c \<in> set (textContent element)"
      by (auto dest: querySelectorAll_subset)
    then show "isWhiteSpace c" by (rule ws)
  qed
  then have c: "concat (map fragment (querySelectorAll textElementSelector element)) = []"
    by simp
  have t: "trim (textContent element) = []"
    using ws by (rule trim_all_whitespace)
  have n: "trim [] = []"
    by (simp add: trim_def trimStart_def trimEnd_def)
  show ?thesis
    unfolding extractText_def Let_def foldl_fragment append_Nil c t n by simp
qed

lemma extractResponseText_empty:
  assumes "querySelectorAll articleSelector document \<noteq> []"
    and "trim (extractText (snd (last (querySelectorAll articleSelector document)))) = []"
  shows "extractResponseText resolve document =
     Inr \<lparr>resp_text = js ''Error: Empty response extracted'', resp_links = []\<rparr>"
  using assms by (simp add: extractResponseText_def pageFunction_def Let_def last_map)

text \<open>
  C4. When the last conversation turn of the document yields an empty or white-space-only
  text, \<open>extractResponseText\<close> returns normally with the sentinel text and no links,
  whatever links the turn holds; this is so in particular when the turn's whole text
  content is white space.
\<close>

theorem empty_extraction_sentinel:
  "querySelectorAll articleSelector document \<noteq> [] \<and>
   (trim (extractText (snd (last (querySelectorAll articleSelector document)))) = [] \<or>
    list_all isWhiteSpace
      (textContent (snd (last (querySelectorAll articleSelector document))))) \<longrightarrow>
   extractResponseText resolve document =
     Inr \<lparr>resp_text = js ''Error: Empty response extracted'', resp_links = []\<rparr>"
proof (intro impI, elim conjE disjE)
  assume "querySelectorAll articleSelector document \<noteq> []"
    and "trim (extractText (snd (last (querySelectorAll articleSelector document)))) = []"
  then show "extractResponseText resolve document =
     Inr \<lparr>resp_text = js ''Error: Empty response extracted'', resp_links = []\<rparr>"
    by (rule extractResponseText_empty)
next
  let ?a = "snd (last (querySelectorAll articleSelector document))"
  assume ne: "querySelectorAll articleSelector document \<noteq> []"
    and "list_all isWhiteSpace (textContent ?a)"
  then have "extractText ?a = []"
    by (intro extractText_whitespace) (simp add: list_all_iff)
  then have "trim (extractText ?a) = []"
    by (simp add: trim_def trimStart_def trimEnd_def)
  with ne show "extractResponseText resolve document =
     Inr \<lparr>resp_text = js ''Error: Empty response extracted'', resp_links = []\<rparr>"
    by (rule extractResponseText_empty)
qed


theorem empty_extraction_sentinel_witness:
  "querySelectorAll articleSelector
     (Element ''html'' []
       [Element ''article'' [(''data-testid'', js ''conversation-turn-2'')]
         [Element ''p'' [] [Text (js '' \<newline> '')],
          Element ''span'' [(''data-testid'', js ''webpage-citation-pill'')]
            [Element ''a'' [(''href'', js ''https://a.example'')] []]]]) \<noteq> [] \<and>
   list_all isWhiteSpace
     (textContent (snd (last (querySelectorAll articleSelector
       (Element ''html'' []
         [Element ''article'' [(''data-testid'', js ''conversation-turn-2'')]
           [Element ''p'' [] [Text (js '' \<newline> '')],
            Element ''span'' [(''data-testid'', js ''webpage-citation-pill'')]
              [Element ''a'' [(''href'', js ''https://a.example'')] []]]]))))) \<and>
   extractResponseText (\<lambda>u. u)
     (Element ''html'' []
       [Element ''article'' [(''data-testid'', js ''conversation-turn-2'')]
         [Element ''p'' [] [Text (js '' \<newline> '')],
          Element ''span'' [(''data-testid'', js ''webpage-citation-pill'')]
            [Element ''a'' [(''href'', js ''https://a.example'')] []]]]) =
     Inr \<lparr>resp_text = js ''Error: Empty response extracted'', resp_links = []\<rparr>"
  (is "?ne \<and> ?ws \<and> ?res")
proof -
  have ne: ?ne
    by code_simp
  have ws: ?ws
    by code_simp
  from empty_extraction_sentinel
    [of "Element ''html'' []
       [Element ''article'' [(''data-testid'', js ''conversation-turn-2'')]
         [Element ''p'' [] [Text (js '' \<newline> '')],
          Element ''span'' [(''data-testid'', js ''webpage-citation-pill'')]
            [Element ''a'' [(''href'', js ''https://a.example'')] []]]]" "\<lambda>u. u"] ne ws
  have ?res
    by blast
  with ne ws show ?thesis
    by blast
qed

section \<open>Properties of text extraction\<close>

lemma startsWith_h_heading:
  "t \<in> set [''h1'', ''h2'', ''h3'', ''h4'', ''h5'', ''h6''] \<Longrightarrow> startsWith_h t"
  by (auto simp: startsWith_h_def)

lemma fragment_heading:
  assumes "tagName (snd pe) \<in> set [''h1'', ''h2'', ''h3'', ''h4'', ''h5'', ''h6'']"
    and "trim (textContent (snd pe)) \<noteq> []"
  shows "fragment pe =
     js ''\<newline>\<newline>'' @ trim (textContent (snd pe)) @ js ''\<newline>'' @
     replicate (length (trim (textContent (snd pe)))) 0x3D @ js ''\<newline>''"
  using assms(2) startsWith_h_heading [OF assms(1)]
  by (simp add: fragment_def Let_def)

lemma fragment_plain:
  assumes "tagName (snd pe) \<in> set [''p'', ''span'']"
  shows "fragment pe =
     (if trim (textContent (snd pe)) = [] then []
      else if parentIsTextElement (fst pe) then []
      else js ''\<newline>'' @ trim (textContent (snd pe)))"
  using assms by (auto simp: fragment_def Let_def startsWith_h_def)

lemma fragment_code:
  assumes "tagName (snd pe) \<in> set [''pre'', ''code'']"
    and "trim (textContent (snd pe)) \<noteq> []"
  shows "fragment pe =
     js ''\<newline>```\<newline>'' @ trim (textContent (snd pe)) @ js ''\<newline>```\<newline>''"
  using assms by (auto simp: fragment_def Let_def startsWith_h_def)

lemma textElements_heading_paragraph:
  assumes "h \<in> set [''h1'', ''h2'', ''h3'', ''h4'', ''h5'', ''h6'']"
  shows "querySelectorAll textElementSelector
           (Element r attrs [Element h a1 [Text t], Element ''p'' a2 [Text b]]) =
         [(Some (Element r attrs [Element h a1 [Text t], Element ''p'' a2 [Text b]]),
           Element h a1 [Text t]),
          (Some (Element r attrs [Element h a1 [Text t], Element ''p'' a2 [Text b]]),
           Element ''p'' a2 [Text b])]"
  using assms by (auto simp: querySelectorAll_def textElementSelector_def)

lemma heading_then_paragraph:
  assumes h: "h \<in> set [''h1'', ''h2'', ''h3'', ''h4'', ''h5'', ''h6'']"
    and r: "r \<notin> set [''p'', ''h1'', ''h2'', ''h3'', ''h4'', ''h5'', ''h6'', ''li'']"
    and t: "trim t \<noteq> []" and b: "trim b \<noteq> []"
  shows "extractText (Element r attrs [Element h a1 [Text t], Element ''p'' a2 [Text b]]) =
     trim t @ js ''\<newline>'' @ replicate (length (trim t)) 0x3D @ js ''\<newline>\<newline>'' @ trim b"
proof -
  let ?root = "Element r attrs [Element h a1 [Text t], Element ''p'' a2 [Text b]]"
  let ?s = "trim t @ js ''\<newline>'' @ replicate (length (trim t)) 0x3D @
            js ''\<newline>\<newline>'' @ trim b"
  have fh: "fragment (Some ?root, Element h a1 [Text t]) =
     js ''\<newline>\<newline>'' @ trim t @ js ''\<newline>'' @ replicate (length (trim t)) 0x3D @
     js ''\<newline>''"
    using fragment_heading [of "(Some ?root, Element h a1 [Text t])"] h t by simp
  have fp: "fragment (Some ?root, Element ''p'' a2 [Text b]) = js ''\<newline>'' @ trim b"
    using fragment_plain [of "(Some ?root, Element ''p'' a2 [Text b])"] r b
    by (simp add: parentIsTextElement_def)
  have "extractText ?root =
     trim (fragment (Some ?root, Element h a1 [Text t]) @
           fragment (Some ?root, Element ''p'' a2 [Text b]))"
    by (subst extractText_fragments [OF textElements_heading_paragraph [OF h]]) simp_all
  also have "\<dots> = trim (js ''\<newline>\<newline>'' @ ?s @ [])"
    unfolding fh fp by (simp add: js_newline)
  also have "\<dots> = ?s"
  proof (rule trim_wrapped)
    show "?s \<noteq> []" using t by simp
    show "\<not> isWhiteSpace (hd ?s)" using t trim_hd [of t] by simp
    show "\<not> isWhiteSpace (last ?s)" using b trim_last [of b] by simp
  qed (simp_all add: js_newline isWhiteSpace_newline)
  finally show ?thesis .
qed

text \<open>
  C5. A heading with non-empty trimmed text \<open>t\<close> appends two line feeds, \<open>t\<close>, a line
  feed, as many \<open>=\<close> as \<open>t\<close> has code units, and a line feed. A turn that holds a heading
  and then a paragraph is extracted as the heading's text, its underline of the same
  length, a blank line and the paragraph's text; for the heading \<open>Title\<close> and the
  paragraph \<open>Body\<close> the underline has five \<open>=\<close>.
\<close>

theorem heading_underlined:
  "(tagName (snd pe) \<in> set [''h1'', ''h2'', ''h3'', ''h4'', ''h5'', ''h6''] \<and>
    trim (textContent (snd pe)) \<noteq> [] \<longrightarrow>
      fragment pe =
        js ''\<newline>\<newline>'' @ trim (textContent (snd pe)) @ js ''\<newline>'' @
        replicate (length (trim (textContent (snd pe)))) 0x3D @ js ''\<newline>'') \<and>
   (h \<in> set [''h1'', ''h2'', ''h3'', ''h4'', ''h5'', ''h6''] \<and> trim t \<noteq> [] \<and> trim b \<noteq> [] \<longrightarrow>
      extractText (Element ''article'' attrs [Element h a1 [Text t], Element ''p'' a2 [Text b]]) =
        trim t @ js ''\<newline>'' @ replicate (length (trim t)) 0x3D @
        js ''\<newline>\<newline>'' @ trim b) \<and>
   extractText (Element ''article'' []
      [Element ''h1'' [] [Text (js ''Title'')], Element ''p'' [] [Text (js ''Body'')]]) =
     js ''Title\<newline>=====\<newline>\<newline>Body''"
proof (intro conjI impI)
  assume "tagName (snd pe) \<in> set [''h1'', ''h2'', ''h3'', ''h4'', ''h5'', ''h6''] \<and>
    trim (textContent (snd pe)) \<noteq> []"
  then show "fragment pe =
        js ''\<newline>\<newline>'' @ trim (textContent (snd pe)) @ js ''\<newline>'' @
        replicate (length (trim (textContent (snd pe)))) 0x3D @ js ''\<newline>''"
    by (intro fragment_heading) simp_all
next
  assume "h \<in> set [''h1'', ''h2'', ''h3'', ''h4'', ''h5'', ''h6''] \<and> trim t \<noteq> [] \<and> trim b \<noteq> []"
  then show "extractText (Element ''article'' attrs
        [Element h a1 [Text t], Element ''p'' a2 [Text b]]) =
        trim t @ js ''\<newline>'' @ replicate (length (trim t)) 0x3D @
        js ''\<newline>\<newline>'' @ trim b"
    by (intro heading_then_paragraph) simp_all
next
  show "extractText (Element ''article'' []
      [Element ''h1'' [] [Text (js ''Title'')], Element ''p'' [] [Text (js ''Body'')]]) =
     js ''Title\<newline>=====\<newline>\<newline>Body''"
    by code_simp
qed


theorem heading_underlined_witness:
  "tagName (snd (Some (Element ''article'' [] []), Element ''h2'' [] [Text (js '' Intro '')]))
     \<in> set [''h1'', ''h2'', ''h3'', ''h4'', ''h5'', ''h6''] \<and>
   trim (textContent (snd (Some (Element ''article'' [] []),
                            Element ''h2'' [] [Text (js '' Intro '')]))) = js ''Intro'' \<and>
   fragment (Some (Element ''article'' [] []), Element ''h2'' [] [Text (js '' Intro '')]) =
     js ''\<newline>\<newline>Intro\<newline>=====\<newline>'' \<and>
   extractText (Element ''article'' []
      [Element ''h2'' [] [Text (js '' Intro '')], Element ''p'' [] [Text (js ''Body '')]]) =
     js ''Intro\<newline>=====\<newline>\<newline>Body''"
proof -
  have tag: "tagName (snd (Some (Element ''article'' [] []),
                           Element ''h2'' [] [Text (js '' Intro '')]))
     \<in> set [''h1'', ''h2'', ''h3'', ''h4'', ''h5'', ''h6'']"
    by simp
  have t: "trim (js '' Intro '') = js ''Intro''"
    by code_simp
  have b: "trim (js ''Body '') = js ''Body''"
    by code_simp
  have ne: "js ''Intro'' \<noteq> []" "js ''Body'' \<noteq> []"
    by (simp_all add: js_def)
  note inst = heading_underlined
    [of "(Some (Element ''article'' [] []), Element ''h2'' [] [Text (js '' Intro '')])"
      "''h2''" "js '' Intro ''" "js ''Body ''" "[]" "[]" "[]"]
  from inst tag t ne
  have "fragment (Some (Element ''article'' [] []), Element ''h2'' [] [Text (js '' Intro '')]) =
     js ''\<newline>\<newline>'' @ js ''Intro'' @ js ''\<newline>'' @
     replicate (length (js ''Intro'')) 0x3D @ js ''\<newline>''"
    by simp
  then have f: "fragment (Some (Element ''article'' [] []),
                          Element ''h2'' [] [Text (js '' Intro '')]) =
     js ''\<newline>\<newline>Intro\<newline>=====\<newline>''"
    by (simp add: js_def)
  from inst t b ne
  have "extractText (Element ''article'' []
      [Element ''h2'' [] [Text (js '' Intro '')], Element ''p'' [] [Text (js ''Body '')]]) =
     js ''Intro'' @ js ''\<newline>'' @ replicate (length (js ''Intro'')) 0x3D @
     js ''\<newline>\<newline>'' @ js ''Body''"
    by simp
  then have e: "extractText (Element ''article'' []
      [Element ''h2'' [] [Text (js '' Intro '')], Element ''p'' [] [Text (js ''Body '')]]) =
     js ''Intro\<newline>=====\<newline>\<newline>Body''"
    by (simp add: js_def)
  from tag t f e show ?thesis
    by simp
qed

lemma not_whitespace_backtick: "\<not> isWhiteSpace 0x60"
  by (simp add: isWhiteSpace_def)

lemma js_fence:
  "js ''\<newline>```\<newline>'' = [0x0A, 0x60, 0x60, 0x60, 0x0A]"
  "js ''```\<newline>'' = [0x60, 0x60, 0x60, 0x0A]"
  "js ''\<newline>```'' = [0x0A, 0x60, 0x60, 0x60]"
  "js ''\<newline>```\<newline>\<newline>```\<newline>'' =
     [0x0A, 0x60, 0x60, 0x60, 0x0A, 0x0A, 0x60, 0x60, 0x60, 0x0A]"
  by (simp_all add: js_def)

lemma textElements_pre_code:
  "querySelectorAll textElementSelector
     (Element r attrs [Element ''pre'' a1 [Element ''code'' a2 [Text t]]]) =
   [(Some (Element r attrs [Element ''pre'' a1 [Element ''code'' a2 [Text t]]]),
     Element ''pre'' a1 [Element ''code'' a2 [Text t]]),
    (Some (Element ''pre'' a1 [Element ''code'' a2 [Text t]]),
     Element ''code'' a2 [Text t])]"
  by (simp add: querySelectorAll_def textElementSelector_def)

text \<open>
  C10. In a turn whose \<open>pre\<close> element holds one \<open>code\<close> element with non-empty trimmed
  text, the element query selects the \<open>pre\<close> and then the \<open>code\<close>; each has that
  trimmed text and each appends it inside its own fence, whatever its parent is, so
  the extracted text holds the fenced block twice.
\<close>

theorem pre_code_emitted_twice:
  "trim t \<noteq> [] \<longrightarrow>
     querySelectorAll textElementSelector
       (Element ''article'' attrs [Element ''pre'' a1 [Element ''code'' a2 [Text t]]]) =
     [(Some (Element ''article'' attrs [Element ''pre'' a1 [Element ''code'' a2 [Text t]]]),
       Element ''pre'' a1 [Element ''code'' a2 [Text t]]),
      (Some (Element ''pre'' a1 [Element ''code'' a2 [Text t]]),
       Element ''code'' a2 [Text t])] \<and>
     fragment (parent, Element ''pre'' a1 [Element ''code'' a2 [Text t]]) =
       js ''\<newline>```\<newline>'' @ trim t @ js ''\<newline>```\<newline>'' \<and>
     fragment (parent', Element ''code'' a2 [Text t]) =
       js ''\<newline>```\<newline>'' @ trim t @ js ''\<newline>```\<newline>'' \<and>
     extractText
       (Element ''article'' attrs [Element ''pre'' a1 [Element ''code'' a2 [Text t]]]) =
     js ''```\<newline>'' @ trim t @ js ''\<newline>```\<newline>\<newline>```\<newline>'' @ trim t @
     js ''\<newline>```''"
proof (intro impI conjI)
  let ?code = "Element ''code'' a2 [Text t]"
  let ?pre = "Element ''pre'' a1 [?code]"
  let ?root = "Element ''article'' attrs [?pre]"
  let ?s = "js ''```\<newline>'' @ trim t @ js ''\<newline>```\<newline>\<newline>```\<newline>'' @ trim t @
            js ''\<newline>```''"
  assume t: "trim t \<noteq> []"
  show sel: "querySelectorAll textElementSelector ?root = [(Some ?root, ?pre), (Some ?pre, ?code)]"
    by (rule textElements_pre_code)
  show fp: "fragment (p, ?pre) = js ''\<newline>```\<newline>'' @ trim t @ js ''\<newline>```\<newline>''" for p
    using fragment_code [of "(p, ?pre)"] t by simp
  show fc: "fragment (p, ?code) = js ''\<newline>```\<newline>'' @ trim t @ js ''\<newline>```\<newline>''" for p
    using fragment_code [of "(p, ?code)"] t by simp
  have "extractText ?root = trim (fragment (Some ?root, ?pre) @ fragment (Some ?pre, ?code))"
    by (subst extractText_fragments [OF sel]) simp_all
  also have "\<dots> = trim ([0x0A] @ ?s @ [0x0A])"
    unfolding fp fc by (simp add: js_fence)
  also have "\<dots> = ?s"
  proof (rule trim_wrapped)
    show "?s \<noteq> []" using t by simp
    show "\<not> isWhiteSpace (hd ?s)" by (simp add: js_fence not_whitespace_backtick)
    show "\<not> isWhiteSpace (last ?s)" by (simp add: js_fence not_whitespace_backtick)
  qed (simp_all add: isWhiteSpace_newline)
  finally show "extractText ?root = ?s" .
qed

theorem pre_code_emitted_twice_witness:
  "trim (js ''x = 1'') = js ''x = 1'' \<and>
   extractText
     (Element ''article'' [] [Element ''pre'' [] [Element ''code'' [] [Text (js ''x = 1'')]]]) =
   js ''```\<newline>x = 1\<newline>```\<newline>\<newline>```\<newline>x = 1\<newline>```''"
proof -
  have t: "trim (js ''x = 1'') = js ''x = 1''"
    by code_simp
  have ne: "js ''x = 1'' \<noteq> []"
    by (simp add: js_def)
  from pre_code_emitted_twice [of "js ''x = 1''" "[]" "[]" "[]" None None] t ne
  have "extractText
     (Element ''article'' [] [Element ''pre'' [] [Element ''code'' [] [Text (js ''x = 1'')]]]) =
     js ''```\<newline>'' @ js ''x = 1'' @ js ''\<newline>```\<newline>\<newline>```\<newline>'' @ js ''x = 1'' @
     js ''\<newline>```''"
    by simp
  then have "extractText
     (Element ''article'' [] [Element ''pre'' [] [Element ''code'' [] [Text (js ''x = 1'')]]]) =
     js ''```\<newline>x = 1\<newline>```\<newline>\<newline>```\<newline>x = 1\<newline>```''"
    by (simp add: js_def)
  with t show ?thesis
    by simp
qed

text \<open>
  C7, as stated, fails on an element without text: a \<open>span\<close> that holds only a space,
  directly under the \<open>article\<close>, is selected, its parent is no block kind, and yet
  nothing is appended for it, not even the line feed; the paragraphs around it end up
  one line feed apart.
\<close>

theorem plain_element_empty_counterexample:
  "(Some (Element ''article'' []
            [Element ''p'' [] [Text (js ''A'')], Element ''span'' [] [Text (js '' '')],
             Element ''p'' [] [Text (js ''B'')]]),
     Element ''span'' [] [Text (js '' '')])
     \<in> set (querySelectorAll textElementSelector
           (Element ''article'' []
             [Element ''p'' [] [Text (js ''A'')], Element ''span'' [] [Text (js '' '')],
              Element ''p'' [] [Text (js ''B'')]])) \<and>
   \<not> parentIsTextElement
     (Some (Element ''article'' []
             [Element ''p'' [] [Text (js ''A'')], Element ''span'' [] [Text (js '' '')],
              Element ''p'' [] [Text (js ''B'')]])) \<and>
   fragment
     (Some (Element ''article'' []
             [Element ''p'' [] [Text (js ''A'')], Element ''span'' [] [Text (js '' '')],
              Element ''p'' [] [Text (js ''B'')]]),
      Element ''span'' [] [Text (js '' '')]) \<noteq>
     js ''\<newline>'' @ trim (textContent (Element ''span'' [] [Text (js '' '')])) \<and>
   extractText
     (Element ''article'' []
       [Element ''p'' [] [Text (js ''A'')], Element ''span'' [] [Text (js '' '')],
        Element ''p'' [] [Text (js ''B'')]]) = js ''A\<newline>B''"
  by code_simp

lemma textElement_plain_tag:
  assumes "pe \<in> set (querySelectorAll textElementSelector root)"
    and "tagName (snd pe) \<notin> set [''h1'', ''h2'', ''h3'', ''h4'', ''h5'', ''h6'', ''li'',
           ''pre'', ''code'']"
  shows "tagName (snd pe) \<in> set [''p'', ''span'']"
  using textElement_tag [OF assms(1)] assms(2) by auto

text \<open>
  C7, amended. An element the query selects that is no heading, list item, \<open>pre\<close> or
  \<open>code\<close> is a \<open>p\<close> or a \<open>span\<close> and has a parent element. When its trimmed text
  is not empty, a line feed and that text are appended if the parent is none of
  \<open>p\<close>, \<open>h1\<close>..\<open>h6\<close>, \<open>li\<close>, and nothing is appended if it is one; when its
  trimmed text is empty, nothing is appended.
\<close>

theorem plain_element_parent_exclusion:
  "pe \<in> set (querySelectorAll textElementSelector root) \<and>
   tagName (snd pe) \<notin> set [''h1'', ''h2'', ''h3'', ''h4'', ''h5'', ''h6'', ''li'',
     ''pre'', ''code''] \<longrightarrow>
     tagName (snd pe) \<in> set [''p'', ''span''] \<and>
     (\<exists>p. fst pe = Some p) \<and>
     fragment pe =
       (if trim (textContent (snd pe)) = [] then []
        else if parentIsTextElement (fst pe) then []
        else js ''\<newline>'' @ trim (textContent (snd pe)))"
proof (intro impI, elim conjE)
  assume sel: "pe \<in> set (querySelectorAll textElementSelector root)"
    and tag: "tagName (snd pe) \<notin> set [''h1'', ''h2'', ''h3'', ''h4'', ''h5'', ''h6'', ''li'',
     ''pre'', ''code'']"
  have plain: "tagName (snd pe) \<in> set [''p'', ''span'']"
    using sel tag by (rule textElement_plain_tag)
  moreover have "\<exists>p. fst pe = Some p"
    using descendants_parent [OF querySelectorAll_subset [OF sel]] by blast
  moreover note fragment_plain [OF plain]
  ultimately show "tagName (snd pe) \<in> set [''p'', ''span''] \<and>
     (\<exists>p. fst pe = Some p) \<and>
     fragment pe =
       (if trim (textContent (snd pe)) = [] then []
        else if parentIsTextElement (fst pe) then []
        else js ''\<newline>'' @ trim (textContent (snd pe)))"
    by blast
qed

theorem plain_element_parent_exclusion_witness:
  "querySelectorAll textElementSelector
     (Element ''article'' []
       [Element ''p'' [] [Text (js ''see ''), Element ''span'' [] [Text (js ''this'')]]]) =
     [(Some (Element ''article'' []
             [Element ''p'' [] [Text (js ''see ''), Element ''span'' [] [Text (js ''this'')]]]),
       Element ''p'' [] [Text (js ''see ''), Element ''span'' [] [Text (js ''this'')]]),
      (Some (Element ''p'' [] [Text (js ''see ''), Element ''span'' [] [Text (js ''this'')]]),
       Element ''span'' [] [Text (js ''this'')])] \<and>
   fragment
     (Some (Element ''article'' []
             [Element ''p'' [] [Text (js ''see ''), Element ''span'' [] [Text (js ''this'')]]]),
      Element ''p'' [] [Text (js ''see ''), Element ''span'' [] [Text (js ''this'')]]) =
     js ''\<newline>see this'' \<and>
   fragment
     (Some (Element ''p'' [] [Text (js ''see ''), Element ''span'' [] [Text (js ''this'')]]),
      Element ''span'' [] [Text (js ''this'')]) = []"
  (is "?sel \<and> ?fp \<and> ?fs")
proof -
  let ?span = "Element ''span'' [] [Text (js ''this'')]"
  let ?p = "Element ''p'' [] [Text (js ''see ''), ?span]"
  let ?root = "Element ''article'' [] [?p]"
  have sel: ?sel
    by code_simp
  have facts:
    "trim (textContent ?p) = js ''see this''" "js ''see this'' \<noteq> []"
    "trim (textContent ?span) = js ''this''" "js ''this'' \<noteq> []"
    "\<not> parentIsTextElement (Some ?root)" "parentIsTextElement (Some ?p)"
    by code_simp+
  from plain_element_parent_exclusion [of "(Some ?root, ?p)" ?root] sel facts
  have "fragment (Some ?root, ?p) = js ''\<newline>'' @ js ''see this''"
    by simp
  then have fp: ?fp
    by (simp add: js_def)
  from plain_element_parent_exclusion [of "(Some ?p, ?span)" ?root] sel facts
  have fs: ?fs
    by simp
  from sel fp fs show ?thesis
    by blast
qed

section \<open>Properties of link extraction\<close>





















end
